theory Spec2Isabelle
  imports Main "HOL-Library.Sublist"
begin

section \<open>The asynchronous queue of quests/js-native-throttling.js\<close>

text \<open>
  \<^verbatim>\<open>createAsyncQueue({ concurrency })\<close> closes over \<^verbatim>\<open>taskQueue\<close>, \<^verbatim>\<open>runningTasks\<close>,
  \<^verbatim>\<open>isPaused\<close>, \<^verbatim>\<open>idlePromise\<close> and \<^verbatim>\<open>resolveIdle\<close>. The closure is a record that every
  method takes and returns. JavaScript runs each method and each promise callback to
  completion, so one method call or one settled task is one step of the model.

  A task is a function. Calling it either throws at once (\<open>throws = Some message\<close>) or
  returns a value or promise that settles later, which is an event of its own. Tasks and
  the error handler are opaque: they do not call back into the queue, and the handler
  returns.
\<close>

datatype error =
    ConcurrencyNotPositive
  | TaskNotFunction
  | TaskThrew string
  | ExpectedFunction
  | ExpectedNonNegativeWait
  | FuncThrew string

datatype task = Task (tid: nat) (throws: "string option")

datatype arg = NotAFunction | Fn task

datatype outcome = Fulfilled | Rejected string

datatype message =
    QueuePaused
  | QueueResumed
  | QueueCleared nat
  | UnhandledTaskError string

text \<open>
  Promises are numbered. \<open>idlePromise\<close> is the number of the promise the variable holds,
  \<open>resolveIdle\<close> the number of the promise that calling \<^verbatim>\<open>resolveIdle()\<close> resolves,
  \<open>resolved\<close> the promises resolved so far and \<open>fresh\<close> the next unused number.
  \<open>started\<close> lists the calls \<^verbatim>\<open>task()\<close> in order, \<open>inflight\<close> the started tasks whose result
  has not settled, \<open>handled\<close> the calls of \<^verbatim>\<open>onError\<close> and \<open>console\<close> what was printed.
\<close>

record queue =
  concurrency :: int
  taskQueue :: "task list"
  runningTasks :: int
  isPaused :: bool
  idlePromise :: nat
  resolveIdle :: nat
  onError :: "nat option"
  resolved :: "nat set"
  fresh :: nat
  started :: "task list"
  inflight :: "task list"
  handled :: "(nat \<times> string) list"
  console :: "message list"

text \<open>
  The state the constructor leaves: promise 0 is the \<^verbatim>\<open>Promise.resolve()\<close> first stored in
  \<^verbatim>\<open>idlePromise\<close>, promise 1 the \<^verbatim>\<open>new Promise\<close> that replaces it together with its resolver.
\<close>

definition queue0 :: "int \<Rightarrow> queue" where
  "queue0 c = \<lparr> concurrency = c, taskQueue = [], runningTasks = 0, isPaused = False,
     idlePromise = 1, resolveIdle = 1, onError = None, resolved = {0}, fresh = 2,
     started = [], inflight = [], handled = [], console = [] \<rparr>"

text \<open>The argument is an integer already; the source also rejects non-numbers and fractions.\<close>

definition createAsyncQueue :: "int \<Rightarrow> error + queue" where
  "createAsyncQueue c = (if c \<le> 0 then Inl ConcurrencyNotPositive else Inr (queue0 c))"

text \<open>
  \<^verbatim>\<open>runNext\<close>: the call \<^verbatim>\<open>task()\<close> happens inside \<^verbatim>\<open>Promise.resolve(task())\<close>, before any handler
  is attached, so a task that throws leaves \<^verbatim>\<open>runNext\<close> through the exception, after the
  shift and the increment.
\<close>

function runNext :: "queue \<Rightarrow> error option \<times> queue" where
  "runNext s =
     (if isPaused s \<or> concurrency s \<le> runningTasks s \<or> taskQueue s = [] then (None, s)
      else let t = hd (taskQueue s);
               s1 = s\<lparr> taskQueue := tl (taskQueue s),
                       runningTasks := runningTasks s + 1,
                       started := started s @ [t] \<rparr>
           in case throws t of
                Some m \<Rightarrow> (Some (TaskThrew m), s1)
              | None \<Rightarrow> runNext (s1\<lparr> inflight := inflight s1 @ [t] \<rparr>))"
  by pat_completeness auto
termination
  by (relation "measure (\<lambda>s. length (taskQueue s))") auto

declare runNext.simps [simp del]

text \<open>The \<^verbatim>\<open>.catch\<close> handler of a started task.\<close>

definition on_rejected :: "string \<Rightarrow> queue \<Rightarrow> queue" where
  "on_rejected e s =
     (case onError s of
        Some h \<Rightarrow> s\<lparr> handled := handled s @ [(h, e)] \<rparr>
      | None \<Rightarrow> s\<lparr> console := console s @ [UnhandledTaskError e] \<rparr>)"

text \<open>The \<^verbatim>\<open>.finally\<close> handler of a started task.\<close>

definition on_finally :: "queue \<Rightarrow> error option \<times> queue" where
  "on_finally s =
     (let s1 = s\<lparr> runningTasks := runningTasks s - 1 \<rparr>;
          s2 = (if runningTasks s1 = 0 \<and> taskQueue s1 = []
                then s1\<lparr> resolved := insert (resolveIdle s1) (resolved s1) \<rparr> else s1)
      in runNext s2)"

text \<open>
  The result of an in-flight task settles: the handlers \<^verbatim>\<open>.then\<close>, \<^verbatim>\<open>.catch\<close>, \<^verbatim>\<open>.finally\<close> run.
  A task that is not in flight has nothing to settle.
\<close>

definition settle :: "task \<Rightarrow> outcome \<Rightarrow> queue \<Rightarrow> error option \<times> queue" where
  "settle t r s =
     (if t \<in> set (inflight s)
      then let s0 = s\<lparr> inflight := remove1 t (inflight s) \<rparr>
           in on_finally (case r of Fulfilled \<Rightarrow> s0 | Rejected e \<Rightarrow> on_rejected e s0)
      else (None, s))"

definition add :: "arg \<Rightarrow> queue \<Rightarrow> error option \<times> queue" where
  "add a s =
     (case a of
        NotAFunction \<Rightarrow> (Some TaskNotFunction, s)
      | Fn t \<Rightarrow>
          (case runNext (s\<lparr> taskQueue := taskQueue s @ [t] \<rparr>) of
             (Some e, s1) \<Rightarrow> (Some e, s1)
           | (None, s1) \<Rightarrow>
               (None, s1\<lparr> idlePromise := fresh s1, resolveIdle := fresh s1,
                          fresh := fresh s1 + 1 \<rparr>)))"

definition onIdle :: "queue \<Rightarrow> nat \<times> queue" where
  "onIdle s =
     (if runningTasks s = 0 \<and> taskQueue s = []
      then (fresh s, s\<lparr> resolved := insert (fresh s) (resolved s), fresh := fresh s + 1 \<rparr>)
      else (idlePromise s, s))"

definition pause :: "queue \<Rightarrow> queue" where
  "pause s = s\<lparr> isPaused := True, console := console s @ [QueuePaused] \<rparr>"

definition resume :: "queue \<Rightarrow> error option \<times> queue" where
  "resume s =
     (if isPaused s
      then runNext (s\<lparr> isPaused := False, console := console s @ [QueueResumed] \<rparr>)
      else (None, s))"

definition clear :: "queue \<Rightarrow> queue" where
  "clear s = s\<lparr> taskQueue := [],
               console := console s @ [QueueCleared (length (taskQueue s))] \<rparr>"

definition getRunningTasksCount :: "queue \<Rightarrow> int" where
  "getRunningTasksCount s = runningTasks s"

definition getPendingTasksCount :: "queue \<Rightarrow> nat" where
  "getPendingTasksCount s = length (taskQueue s)"

text \<open>
  What can happen to a queue, and a run of such events. An exception that leaves a method
  or a callback is dropped here; the state it leaves behind stays.
\<close>

datatype qevent =
    Add arg
  | Settle task outcome
  | Pause
  | Resume
  | Clear
  | OnIdle
  | SetOnError "nat option"

fun qstep :: "qevent \<Rightarrow> queue \<Rightarrow> queue" where
  "qstep (Add a) s = snd (add a s)"
| "qstep (Settle t r) s = snd (settle t r s)"
| "qstep Pause s = pause s"
| "qstep Resume s = snd (resume s)"
| "qstep Clear s = clear s"
| "qstep OnIdle s = snd (onIdle s)"
| "qstep (SetOnError h) s = s\<lparr> onError := h \<rparr>"

fun qrun :: "qevent list \<Rightarrow> queue \<Rightarrow> queue" where
  "qrun [] s = s"
| "qrun (e # es) s = qrun es (qstep e s)"

text \<open>
  Auxiliary notions for the properties below: the bound that \<^verbatim>\<open>runNext\<close> keeps, the tasks
  an event list submits, and the tasks of a queue in the order they left or will leave it.
\<close>

definition qinv :: "queue \<Rightarrow> bool" where
  "qinv s = (0 < concurrency s \<and> runningTasks s \<le> concurrency s
             \<and> int (length (inflight s)) \<le> runningTasks s)"

fun added :: "qevent list \<Rightarrow> task list" where
  "added [] = []"
| "added (Add (Fn t) # es) = t # added es"
| "added (e # es) = added es"

definition lineup :: "queue \<Rightarrow> task list" where
  "lineup s = started s @ taskQueue s"

text \<open>
  A promise that nothing can resolve any more: it is unresolved and no resolver for it is
  left. A queue that cannot start a task any more: it is full and nothing is in flight.
\<close>

definition orphaned :: "nat \<Rightarrow> queue \<Rightarrow> bool" where
  "orphaned p s = (p \<notin> resolved s \<and> p < fresh s \<and> resolveIdle s \<noteq> p)"

definition dead :: "queue \<Rightarrow> bool" where
  "dead s = (inflight s = [] \<and> concurrency s \<le> runningTasks s)"

section \<open>The throttle wrapper of quests/js-native-throttling.js\<close>

text \<open>
  \<^verbatim>\<open>throttle(func, wait, options)\<close> closes over \<^verbatim>\<open>inThrottle\<close>, \<^verbatim>\<open>lastFn\<close> and \<^verbatim>\<open>lastTime\<close>, all
  three declared without a value, and keeps its timer in \<^verbatim>\<open>throttled.timeoutId\<close>. A variable
  is \<^verbatim>\<open>undefined\<close>, \<^verbatim>\<open>null\<close> or holds a value; the source only tests \<^verbatim>\<open>inThrottle\<close> and
  \<^verbatim>\<open>lastFn\<close> for truthiness.
\<close>

datatype 'a js = Undefined | Null | Val 'a

fun truthy :: "bool js \<Rightarrow> bool" where
  "truthy (Val b) = b"
| "truthy _ = False"

text \<open>\<^verbatim>\<open>lastFn\<close> holds \<^verbatim>\<open>func\<close>, a function and so truthy, or nothing.\<close>

fun present :: "unit js \<Rightarrow> bool" where
  "present (Val _) = True"
| "present _ = False"

text \<open>
  \<^verbatim>\<open>func\<close> is opaque. What it does when it is called, return or throw, comes with the event
  that may call it; it does not call the wrapper. A call \<^verbatim>\<open>func.apply(context, args)\<close> is
  recorded, whether it returns or throws, with the time it happens and the place in the
  source it comes from: the branch for a call outside a throttle period (\<open>Leading\<close>) or the
  timer callback (\<open>Trailing\<close>).
\<close>

datatype fn_result = Returns | Throws string

datatype edge = Leading | Trailing

record ('c, 'a) invocation =
  inv_time :: nat
  inv_this :: 'c
  inv_args :: 'a
  inv_edge :: edge

text \<open>
  Time is in whole milliseconds. \<open>timeoutId\<close> is the pending timer, if any: the time it is due
  and the \<^verbatim>\<open>context\<close> and \<^verbatim>\<open>args\<close> its callback closes over. \<open>clock\<close> is \<^verbatim>\<open>Date.now()\<close>.
\<close>

record ('c, 'a) throttle_state =
  wait :: nat
  leading :: bool
  trailing :: bool
  inThrottle :: "bool js"
  lastFn :: "unit js"
  lastTime :: "nat js"
  timeoutId :: "(nat \<times> 'c \<times> 'a) option"
  clock :: nat
  calls :: "('c, 'a) invocation list"

text \<open>An option left out of \<^verbatim>\<open>options\<close> is \<open>None\<close> and defaults to \<^verbatim>\<open>true\<close>.\<close>

record options =
  leading_opt :: "bool option"
  trailing_opt :: "bool option"

text \<open>The closure of a wrapper that has not been called yet, at time 0.\<close>

definition wrapper0 :: "nat \<Rightarrow> bool \<Rightarrow> bool \<Rightarrow> ('c, 'a) throttle_state" where
  "wrapper0 w l t = \<lparr> wait = w, leading = l, trailing = t,
     inThrottle = Undefined, lastFn = Undefined, lastTime = Undefined,
     timeoutId = None, clock = 0, calls = [] \<rparr>"

text \<open>
  The first argument tells whether \<^verbatim>\<open>func\<close> is a function. \<^verbatim>\<open>wait\<close> is an integer here; once
  checked it is not negative and is kept as a natural number.
\<close>

definition throttle :: "bool \<Rightarrow> int \<Rightarrow> options \<Rightarrow> error + ('c, 'a) throttle_state" where
  "throttle is_function w opts =
     (if \<not> is_function then Inl ExpectedFunction
      else if w < 0 then Inl ExpectedNonNegativeWait
      else Inr (wrapper0 (nat w)
                  (case leading_opt opts of None \<Rightarrow> True | Some b \<Rightarrow> b)
                  (case trailing_opt opts of None \<Rightarrow> True | Some b \<Rightarrow> b)))"

text \<open>
  The timer of the platform, which is not code of the repository. \<^verbatim>\<open>setTimeout(f, delay)\<close>
  runs \<^verbatim>\<open>f\<close> once, between two calls of the program, not before the delay has passed and
  possibly later. The delay is honoured up to 2147483647 milliseconds; a longer one is
  replaced by 1 millisecond, as Node.js does.
\<close>

definition timer_delay :: "nat \<Rightarrow> nat" where
  "timer_delay w = (if w \<le> 2147483647 then w else 1)"

text \<open>
  The wrapper, called with \<^verbatim>\<open>context\<close> \<open>c\<close> and \<^verbatim>\<open>args\<close> \<open>a\<close>; \<open>r\<close> is what \<^verbatim>\<open>func\<close> does if this call
  calls it. When \<^verbatim>\<open>func\<close> throws, the wrapper is left at that point: \<^verbatim>\<open>inThrottle\<close> is not set
  and the timer is not touched. Otherwise \<^verbatim>\<open>clearTimeout\<close> followed by \<^verbatim>\<open>setTimeout\<close> replaces
  the pending timer.
\<close>

definition throttled ::
  "'c \<Rightarrow> 'a \<Rightarrow> fn_result \<Rightarrow> ('c, 'a) throttle_state
     \<Rightarrow> error option \<times> ('c, 'a) throttle_state" where
  "throttled c a r s =
     (let arm = (\<lambda>s'. s'\<lparr> timeoutId := Some (clock s + timer_delay (wait s), c, a) \<rparr>)
      in if \<not> truthy (inThrottle s)
         then (if leading s
               then (let s1 = s\<lparr> calls := calls s @
                                  [\<lparr> inv_time = clock s, inv_this = c, inv_args = a,
                                     inv_edge = Leading \<rparr>] \<rparr>
                     in case r of
                          Throws m \<Rightarrow> (Some (FuncThrew m), s1)
                        | Returns \<Rightarrow> (None, arm (s1\<lparr> inThrottle := Val True \<rparr>)))
               else (None, arm (s\<lparr> lastFn := Val (), lastTime := Val (clock s),
                                    inThrottle := Val True \<rparr>)))
         else (None, arm (s\<lparr> lastFn := Val (), lastTime := Val (clock s) \<rparr>)))"

text \<open>
  The callback given to \<^verbatim>\<open>setTimeout\<close>, with the \<^verbatim>\<open>context\<close> and \<^verbatim>\<open>args\<close> it closes over; \<open>r\<close> is
  what \<^verbatim>\<open>func\<close> does if the callback calls it. When \<^verbatim>\<open>func\<close> throws, the three assignments
  after the call are not reached.
\<close>

definition timeout_cb ::
  "'c \<Rightarrow> 'a \<Rightarrow> fn_result \<Rightarrow> ('c, 'a) throttle_state
     \<Rightarrow> error option \<times> ('c, 'a) throttle_state" where
  "timeout_cb c a r s =
     (if trailing s \<and> present (lastFn s)
      then (let s1 = s\<lparr> calls := calls s @
                         [\<lparr> inv_time = clock s, inv_this = c, inv_args = a,
                            inv_edge = Trailing \<rparr>] \<rparr>
            in case r of
                 Throws m \<Rightarrow> (Some (FuncThrew m), s1)
               | Returns \<Rightarrow>
                   (None, s1\<lparr> lastFn := Null, inThrottle := Val False, lastTime := Null \<rparr>))
      else (None, s\<lparr> inThrottle := Val False, lastTime := Null \<rparr>))"

definition cancel :: "('c, 'a) throttle_state \<Rightarrow> ('c, 'a) throttle_state" where
  "cancel s = s\<lparr> timeoutId := None, inThrottle := Val False, lastFn := Null, lastTime := Null \<rparr>"

text \<open>The timer runs its callback, if one is pending and due.\<close>

definition fire ::
  "fn_result \<Rightarrow> ('c, 'a) throttle_state \<Rightarrow> error option \<times> ('c, 'a) throttle_state" where
  "fire r s =
     (case timeoutId s of
        None \<Rightarrow> (None, s)
      | Some (due, c, a) \<Rightarrow>
          if due \<le> clock s then timeout_cb c a r (s\<lparr> timeoutId := None \<rparr>) else (None, s))"

text \<open>
  What can happen to a wrapper, and a run of such events. An exception that leaves the
  wrapper or the callback is dropped here; the state it leaves behind stays.
\<close>

datatype ('c, 'a) tevent = Call 'c 'a fn_result | Cancel | Tick nat | Fire fn_result

fun tstep :: "('c, 'a) tevent \<Rightarrow> ('c, 'a) throttle_state \<Rightarrow> ('c, 'a) throttle_state" where
  "tstep (Call c a r) s = snd (throttled c a r s)"
| "tstep Cancel s = cancel s"
| "tstep (Tick d) s = s\<lparr> clock := clock s + d \<rparr>"
| "tstep (Fire r) s = snd (fire r s)"

fun trun :: "('c, 'a) tevent list \<Rightarrow> ('c, 'a) throttle_state \<Rightarrow> ('c, 'a) throttle_state" where
  "trun [] s = s"
| "trun (e # es) s = trun es (tstep e s)"

text \<open>The calls of \<^verbatim>\<open>func\<close> that a wrapper made by \<^verbatim>\<open>throttle\<close> performs on a run of events.\<close>

definition invocations ::
  "error + ('c, 'a) throttle_state \<Rightarrow> ('c, 'a) tevent list \<Rightarrow> ('c, 'a) invocation list" where
  "invocations r evs = (case r of Inl _ \<Rightarrow> [] | Inr s \<Rightarrow> calls (trun evs s))"

text \<open>
  Readings of a rate limit on a list of calls in the order they happened.
  \<open>once_per_window w\<close>: each call comes at least \<open>w\<close> after the one before it.
  \<open>spaced w\<close>: the same, except that a leading call may follow a trailing call at once.
  \<open>twice_per_window w\<close>: of three calls in a row the last comes at least \<open>w\<close> after the first.
\<close>

fun once_per_window :: "nat \<Rightarrow> ('c, 'a) invocation list \<Rightarrow> bool" where
  "once_per_window w (x # y # r) = (inv_time x + w \<le> inv_time y \<and> once_per_window w (y # r))"
| "once_per_window w _ = True"

fun spaced :: "nat \<Rightarrow> ('c, 'a) invocation list \<Rightarrow> bool" where
  "spaced w (x # y # r) =
     (inv_time x \<le> inv_time y
      \<and> (inv_time x + w \<le> inv_time y \<or> (inv_edge x = Trailing \<and> inv_edge y = Leading))
      \<and> spaced w (y # r))"
| "spaced w _ = True"

fun twice_per_window :: "nat \<Rightarrow> ('c, 'a) invocation list \<Rightarrow> bool" where
  "twice_per_window w (x # y # z # r) =
     (inv_time x + w \<le> inv_time z \<and> twice_per_window w (y # z # r))"
| "twice_per_window w _ = True"

text \<open>
  What a run keeps true as long as \<^verbatim>\<open>cancel\<close> is not called, \<^verbatim>\<open>func\<close> returns from every call
  the wrapper itself makes and the timer honours the delay.
\<close>

definition tinv :: "('c, 'a) throttle_state \<Rightarrow> bool" where
  "tinv s =
     (wait s \<le> 2147483647
      \<and> spaced (wait s) (calls s)
      \<and> (calls s \<noteq> [] \<longrightarrow> inv_time (last (calls s)) \<le> clock s)
      \<and> (calls s \<noteq> [] \<longrightarrow>
           (case timeoutId s of None \<Rightarrow> True
            | Some (due, _, _) \<Rightarrow> inv_time (last (calls s)) + wait s \<le> due))
      \<and> (\<not> truthy (inThrottle s) \<longrightarrow>
           calls s = [] \<or> inv_edge (last (calls s)) = Trailing
           \<or> inv_time (last (calls s)) + wait s \<le> clock s))"

text \<open>
  \<open>leading_returns evs s\<close>: on the run of \<open>evs\<close> from \<open>s\<close>, \<^verbatim>\<open>func\<close> returns from every call that
  the wrapper itself makes of it, which it does when called outside a throttled state with
  \<^verbatim>\<open>leading\<close> true. What \<^verbatim>\<open>func\<close> would do in a call that does not reach it is left open, and
  so is what it does when the timer calls it.
\<close>

fun leading_returns :: "('c, 'a) tevent list \<Rightarrow> ('c, 'a) throttle_state \<Rightarrow> bool" where
  "leading_returns [] s = True"
| "leading_returns (e # es) s =
     ((case e of
         Call c a (Throws m) \<Rightarrow> truthy (inThrottle s) \<or> \<not> leading s
       | _ \<Rightarrow> True)
      \<and> leading_returns es (tstep e s))"

text \<open>
  Event lists: \<open>quiet\<close> when only time passes and the timer runs, \<open>in_window\<close> when only calls
  arrive and time passes, \<open>passing\<close> when only time passes.
\<close>

fun quiet :: "('c, 'a) tevent list \<Rightarrow> bool" where
  "quiet [] = True"
| "quiet (Tick d # es) = quiet es"
| "quiet (Fire r # es) = quiet es"
| "quiet (e # es) = False"

fun in_window :: "('c, 'a) tevent list \<Rightarrow> bool" where
  "in_window [] = True"
| "in_window (Call c a r # es) = in_window es"
| "in_window (Tick d # es) = in_window es"
| "in_window (e # es) = False"

fun passing :: "('c, 'a) tevent list \<Rightarrow> bool" where
  "passing [] = True"
| "passing (Tick d # es) = passing es"
| "passing (e # es) = False"



section \<open>Properties of the queue\<close>

subsection \<open>What \<^verbatim>\<open>runNext\<close> changes and what it keeps\<close>

lemma runNext_frame:
  "concurrency (snd (runNext s)) = concurrency s \<and> isPaused (snd (runNext s)) = isPaused s
   \<and> onError (snd (runNext s)) = onError s \<and> resolved (snd (runNext s)) = resolved s
   \<and> fresh (snd (runNext s)) = fresh s \<and> idlePromise (snd (runNext s)) = idlePromise s
   \<and> resolveIdle (snd (runNext s)) = resolveIdle s \<and> handled (snd (runNext s)) = handled s
   \<and> console (snd (runNext s)) = console s"
proof (induction s rule: runNext.induct)
  case (1 s)
  show ?case
    by (subst (1 2 3 4 5 6 7 8 9) runNext.simps) (use 1 in \<open>auto simp: Let_def split: option.splits\<close>)
qed

lemma runNext_qinv: "qinv s \<Longrightarrow> qinv (snd (runNext s))"
proof (induction s rule: runNext.induct)
  case (1 s)
  show ?case
  proof (cases "isPaused s \<or> concurrency s \<le> runningTasks s \<or> taskQueue s = []")
    case True
    then show ?thesis using 1(2) by (subst runNext.simps) simp
  next
    case False
    show ?thesis
    proof (cases "throws (hd (taskQueue s))")
      case None
      have "qinv (s\<lparr> taskQueue := tl (taskQueue s), runningTasks := runningTasks s + 1,
                started := started s @ [hd (taskQueue s)],
                inflight := inflight s @ [hd (taskQueue s)] \<rparr>)"
        using 1(2) False by (simp add: qinv_def)
      then show ?thesis
        using 1(1)[OF False refl refl None] False None
        by (subst runNext.simps) (simp add: Let_def)
    next
      case (Some m)
      then show ?thesis using 1(2) False
        by (subst runNext.simps) (simp add: Let_def qinv_def)
    qed
  qed
qed

lemma runNext_fifo:
  "started (snd (runNext s)) @ taskQueue (snd (runNext s)) = started s @ taskQueue s"
proof (induction s rule: runNext.induct)
  case (1 s)
  show ?case
    by (subst (1 2) runNext.simps) (use 1 in \<open>auto simp: Let_def split: option.splits\<close>)
qed

lemma runNext_paused: "isPaused s \<Longrightarrow> runNext s = (None, s)"
  by (subst runNext.simps) simp

lemma runNext_saturates:
  "fst (runNext s) = None \<Longrightarrow>
     isPaused (snd (runNext s)) \<or> concurrency (snd (runNext s)) \<le> runningTasks (snd (runNext s))
     \<or> taskQueue (snd (runNext s)) = []"
proof (induction s rule: runNext.induct)
  case (1 s)
  show ?case using 1
    by (subst (1 2 3 4) runNext.simps) (use 1 in \<open>auto simp: Let_def runNext.simps[of s] split: option.splits if_splits\<close>)
qed

lemma runNext_prefix:
  "\<exists>k. started (snd (runNext s)) = started s @ take k (taskQueue s)
       \<and> taskQueue (snd (runNext s)) = drop k (taskQueue s)
       \<and> (\<not> isPaused s \<and> runningTasks s < concurrency s \<and> taskQueue s \<noteq> [] \<longrightarrow> 0 < k)"
proof (induction s rule: runNext.induct)
  case (1 s)
  show ?case
  proof (cases "isPaused s \<or> concurrency s \<le> runningTasks s \<or> taskQueue s = []")
    case True
    have "runNext s = (None, s)" using True by (subst runNext.simps) simp
    then show ?thesis using True by (intro exI[of _ 0]) auto
  next
    case False
    then obtain t ts where q: "taskQueue s = t # ts" by (cases "taskQueue s") auto
    show ?thesis
    proof (cases "throws t")
      case (Some m)
      have "runNext s = (Some (TaskThrew m),
              s\<lparr> taskQueue := ts, runningTasks := runningTasks s + 1, started := started s @ [t] \<rparr>)"
        using False q Some by (subst runNext.simps) (simp add: Let_def)
      then show ?thesis using q by (intro exI[of _ 1]) simp
    next
      case None
      let ?s1 = "s\<lparr> taskQueue := tl (taskQueue s), runningTasks := runningTasks s + 1,
                started := started s @ [hd (taskQueue s)],
                inflight := inflight s @ [hd (taskQueue s)] \<rparr>"
      have eq: "runNext s = runNext ?s1"
        using False q None by (subst runNext.simps) (simp add: Let_def)
      from 1[OF False refl refl] None q
      obtain k where k: "started (snd (runNext ?s1)) = started ?s1 @ take k (taskQueue ?s1)"
          "taskQueue (snd (runNext ?s1)) = drop k (taskQueue ?s1)"
        by auto
      show ?thesis using k q eq by (intro exI[of _ "Suc k"]) simp
    qed
  qed
qed

subsection \<open>The concurrency bound\<close>

lemma length_remove1_int:
  assumes "x \<in> set xs"
  shows "int (length (remove1 x xs)) = int (length xs) - 1"
proof -
  have "0 < length xs" using assms by (rule length_pos_if_in_set)
  moreover have "length (remove1 x xs) = length xs - 1" using assms by (simp add: length_remove1)
  ultimately show ?thesis by arith
qed

lemma qstep_qinv:
  assumes inv: "qinv s"
  shows "qinv (qstep e s)"
proof (cases e)
  case (Add a)
  show ?thesis
  proof (cases a)
    case NotAFunction
    then show ?thesis using Add inv by (simp add: add_def)
  next
    case (Fn t)
    have "qinv (s\<lparr> taskQueue := taskQueue s @ [t] \<rparr>)" using inv by (simp add: qinv_def)
    from runNext_qinv[OF this] show ?thesis using Add Fn
      by (auto simp: add_def qinv_def split: prod.splits option.splits)
  qed
next
  case (Settle t r)
  show ?thesis
  proof (cases "t \<in> set (inflight s)")
    case False
    then show ?thesis using Settle inv by (simp add: settle_def)
  next
    case True
    then have len: "int (length (remove1 t (inflight s))) = int (length (inflight s)) - 1"
      by (rule length_remove1_int)
    define s0 where "s0 = (case r of Fulfilled \<Rightarrow> s\<lparr> inflight := remove1 t (inflight s) \<rparr>
                           | Rejected e \<Rightarrow> on_rejected e (s\<lparr> inflight := remove1 t (inflight s) \<rparr>))"
    have f: "concurrency s0 = concurrency s" "runningTasks s0 = runningTasks s"
         "inflight s0 = remove1 t (inflight s)"
      by (auto simp: s0_def on_rejected_def split: outcome.splits option.splits)
    define s2 where "s2 = (let s1 = s0\<lparr> runningTasks := runningTasks s0 - 1 \<rparr> in
          if runningTasks s1 = 0 \<and> taskQueue s1 = []
                then s1\<lparr> resolved := insert (resolveIdle s1) (resolved s1) \<rparr> else s1)"
    have "qinv s2" using f len inv by (auto simp: s2_def qinv_def Let_def)
    from runNext_qinv[OF this] show ?thesis using Settle True
      by (simp add: settle_def on_finally_def s2_def s0_def Let_def)
  qed
next
  case Resume
  show ?thesis
  proof (cases "isPaused s")
    case True
    have "qinv (s\<lparr> isPaused := False, console := console s @ [QueueResumed] \<rparr>)"
      using inv by (simp add: qinv_def)
    from runNext_qinv[OF this] show ?thesis using Resume True by (simp add: resume_def)
  next
    case False
    then show ?thesis using Resume inv by (simp add: resume_def)
  qed
qed (use inv in \<open>auto simp: qinv_def pause_def clear_def onIdle_def\<close>)

lemma qrun_qinv: "qinv s \<Longrightarrow> qinv (qrun es s)"
  by (induction es arbitrary: s) (auto intro: qstep_qinv)

lemma qstep_concurrency: "concurrency (qstep e s) = concurrency s"
  by (cases e)
     (auto simp: add_def settle_def on_finally_def on_rejected_def resume_def pause_def clear_def
        onIdle_def Let_def runNext_frame split: arg.splits prod.splits option.splits outcome.splits
        dest: arg_cong[where f="\<lambda>p. concurrency (snd p)"])

lemma qrun_concurrency: "concurrency (qrun es s) = concurrency s"
  by (induction es arbitrary: s) (auto simp: qstep_concurrency)

lemma qinv_queue0: "0 < c \<Longrightarrow> qinv (queue0 c)"
  by (simp add: qinv_def queue0_def)

text \<open>
  C1. For the queue returned by \<^verbatim>\<open>createAsyncQueue({concurrency})\<close>, after every sequence of
  \<^verbatim>\<open>add\<close>, \<^verbatim>\<open>pause\<close>, \<^verbatim>\<open>resume\<close>, \<^verbatim>\<open>clear\<close>, \<^verbatim>\<open>onIdle\<close> calls and task completions, the
  number \<^verbatim>\<open>getRunningTasksCount()\<close> reports is at most \<^verbatim>\<open>concurrency\<close>, and the tasks
  really in flight are no more than that number.
\<close>

theorem running_never_exceeds_concurrency:
  assumes "createAsyncQueue c = Inr q"
  shows "getRunningTasksCount (qrun evs q) \<le> c
         \<and> int (length (inflight (qrun evs q))) \<le> getRunningTasksCount (qrun evs q)
         \<and> concurrency (qrun evs q) = c"
proof -
  from assms have c: "0 < c" and q: "q = queue0 c"
    by (auto simp: createAsyncQueue_def split: if_splits)
  have "qinv (qrun evs q)" unfolding q using c by (intro qrun_qinv qinv_queue0)
  moreover have "concurrency (qrun evs q) = c" by (simp add: qrun_concurrency q queue0_def)
  ultimately show ?thesis by (simp add: qinv_def getRunningTasksCount_def)
qed

theorem running_never_exceeds_concurrency_witness:
  "createAsyncQueue 2 = Inr (queue0 2)
   \<and> getRunningTasksCount
        (qrun [Add (Fn (Task 1 None)), Add (Fn (Task 2 None)), Add (Fn (Task 3 None)),
               Settle (Task 1 None) (Rejected ''late''), Pause, Resume, Clear] (queue0 2)) \<le> 2
   \<and> getRunningTasksCount
        (qrun [Add (Fn (Task 1 None)), Add (Fn (Task 2 None)), Add (Fn (Task 3 None)),
               Settle (Task 1 None) (Rejected ''late''), Pause, Resume, Clear] (queue0 2)) = 2"
  using running_never_exceeds_concurrency [of 2 "queue0 2"
      "[Add (Fn (Task 1 None)), Add (Fn (Task 2 None)), Add (Fn (Task 3 None)),
        Settle (Task 1 None) (Rejected ''late''), Pause, Resume, Clear]"]
  by (simp add: createAsyncQueue_def queue0_def add_def settle_def on_finally_def on_rejected_def
        pause_def resume_def clear_def getRunningTasksCount_def runNext.simps Let_def)

subsection \<open>Order of starts\<close>

lemma runNext_lineup: "lineup (snd (runNext s)) = lineup s"
  by (simp add: lineup_def runNext_fifo)

lemma qstep_lineup:
  "lineup (qstep e s) =
     (case e of Add (Fn t) \<Rightarrow> lineup s @ [t] | Clear \<Rightarrow> started s | _ \<Rightarrow> lineup s)"
proof (cases e)
  case (Add a)
  show ?thesis
  proof (cases a)
    case NotAFunction
    then show ?thesis using Add by (simp add: add_def)
  next
    case (Fn t)
    have "lineup (snd (runNext (s\<lparr> taskQueue := taskQueue s @ [t] \<rparr>))) = lineup s @ [t]"
      by (simp add: runNext_lineup) (simp add: lineup_def)
    then show ?thesis using Add Fn
      by (auto simp: add_def lineup_def split: prod.splits option.splits)
  qed
next
  case (Settle t r)
  then show ?thesis
    by (simp add: settle_def on_finally_def Let_def runNext_lineup)
       (simp add: lineup_def on_rejected_def split: outcome.splits option.splits)
next
  case Resume
  then show ?thesis
    by (simp add: resume_def runNext_lineup) (simp add: lineup_def)
qed (simp_all add: lineup_def pause_def clear_def onIdle_def)

lemma qrun_lineup:
  "subseq (lineup (qrun es s)) (lineup s @ added es)
   \<and> (Clear \<notin> set es \<longrightarrow> lineup (qrun es s) = lineup s @ added es)"
proof (induction es arbitrary: s)
  case Nil
  then show ?case by simp
next
  case (Cons e es)
  note IH = Cons.IH [of "qstep e s"]
  show ?case
  proof (cases e)
    case Clear
    have "lineup (qstep e s) = started s"
      using qstep_lineup [of e s] Clear by simp
    then have "subseq (lineup (qstep e s) @ added es) (lineup s @ added (e # es))"
      using Clear by (simp add: lineup_def subseq_append' subseq_drop_many)
    with IH show ?thesis using Clear
      by (auto intro: subseq_order.trans)
  next
    case (Add a)
    show ?thesis
    proof (cases a)
      case NotAFunction
      then show ?thesis using IH Add by (simp add: add_def)
    next
      case (Fn t)
      then show ?thesis using IH Add qstep_lineup [of e s] by simp
    qed
  qed (use IH qstep_lineup [of e s] in \<open>simp_all\<close>)
qed

text \<open>
  C4. Tasks start in the order they were submitted. The tasks started so far, followed
  by the pending ones, are the submitted tasks in submission order (those removed by
  \<^verbatim>\<open>clear()\<close> left out), so no task starts before an earlier one that is still pending;
  and whenever \<^verbatim>\<open>runNext\<close> starts tasks, they are the oldest pending ones, in order, at
  least one when the queue is not paused and has capacity.
\<close>

theorem tasks_start_in_submission_order:
  assumes "createAsyncQueue c = Inr q"
  shows "subseq (started (qrun evs q) @ taskQueue (qrun evs q)) (added evs)
         \<and> (Clear \<notin> set evs \<longrightarrow> started (qrun evs q) @ taskQueue (qrun evs q) = added evs)
         \<and> (\<exists>k. started (snd (runNext s)) = started s @ take k (taskQueue s)
                \<and> taskQueue (snd (runNext s)) = drop k (taskQueue s)
                \<and> (\<not> isPaused s \<and> runningTasks s < concurrency s \<and> taskQueue s \<noteq> []
                     \<longrightarrow> 0 < k))"
proof -
  from assms have "started q = []" "taskQueue q = []"
    by (auto simp: createAsyncQueue_def queue0_def split: if_splits)
  then have "lineup q = []" by (simp add: lineup_def)
  with qrun_lineup [of evs q] runNext_prefix [of s] show ?thesis by (simp add: lineup_def)
qed

theorem tasks_start_in_submission_order_witness:
  "createAsyncQueue 1 = Inr (queue0 1)
   \<and> Clear \<notin> set [Add (Fn (Task 1 None)), Add (Fn (Task 2 None)), Add (Fn (Task 3 None)),
                    Settle (Task 1 None) Fulfilled]
   \<and> started (qrun [Add (Fn (Task 1 None)), Add (Fn (Task 2 None)), Add (Fn (Task 3 None)),
                    Settle (Task 1 None) Fulfilled] (queue0 1)) = [Task 1 None, Task 2 None]
   \<and> taskQueue (qrun [Add (Fn (Task 1 None)), Add (Fn (Task 2 None)), Add (Fn (Task 3 None)),
                    Settle (Task 1 None) Fulfilled] (queue0 1)) = [Task 3 None]
   \<and> added [Add (Fn (Task 1 None)), Add (Fn (Task 2 None)), Add (Fn (Task 3 None)),
                    Settle (Task 1 None) Fulfilled] = [Task 1 None, Task 2 None, Task 3 None]
   \<and> \<not> isPaused ((queue0 2)\<lparr> taskQueue := [Task 4 None, Task 5 None, Task 6 None] \<rparr>)
   \<and> runningTasks ((queue0 2)\<lparr> taskQueue := [Task 4 None, Task 5 None, Task 6 None] \<rparr>)
       < concurrency ((queue0 2)\<lparr> taskQueue := [Task 4 None, Task 5 None, Task 6 None] \<rparr>)
   \<and> started (snd (runNext
         ((queue0 2)\<lparr> taskQueue := [Task 4 None, Task 5 None, Task 6 None] \<rparr>)))
       = [Task 4 None, Task 5 None]
   \<and> taskQueue (snd (runNext
         ((queue0 2)\<lparr> taskQueue := [Task 4 None, Task 5 None, Task 6 None] \<rparr>)))
       = [Task 6 None]"
  using tasks_start_in_submission_order [of 1 "queue0 1"
      "[Add (Fn (Task 1 None)), Add (Fn (Task 2 None)), Add (Fn (Task 3 None)),
        Settle (Task 1 None) Fulfilled]"
      "(queue0 2)\<lparr> taskQueue := [Task 4 None, Task 5 None, Task 6 None] \<rparr>"]
  by (simp add: createAsyncQueue_def queue0_def add_def settle_def on_finally_def
        runNext.simps Let_def)

subsection \<open>Pausing and resuming\<close>

lemma paused_step:
  assumes "isPaused s" "e \<noteq> Resume"
  shows "isPaused (qstep e s) \<and> started (qstep e s) = started s"
proof (cases e)
  case (Add a)
  then show ?thesis using assms
    by (cases a) (simp_all add: add_def runNext_paused)
next
  case (Settle t r)
  then show ?thesis using assms
    by (simp add: settle_def on_finally_def on_rejected_def Let_def runNext_paused
          split: outcome.splits option.splits)
qed (use assms in \<open>simp_all add: pause_def clear_def onIdle_def\<close>)

lemma paused_run:
  "isPaused s \<Longrightarrow> Resume \<notin> set es \<Longrightarrow>
     isPaused (qrun es s) \<and> started (qrun es s) = started s"
proof (induction es arbitrary: s)
  case Nil
  then show ?case by simp
next
  case (Cons e es)
  from Cons.prems have "e \<noteq> Resume" "Resume \<notin> set es" by auto
  with paused_step [OF Cons.prems(1), of e] Cons.IH [of "qstep e s"]
  show ?case by simp
qed

lemma paused_settle:
  assumes "isPaused s" "t \<in> set (inflight s)"
  shows "settle t r s = (None, snd (settle t r s))
         \<and> inflight (snd (settle t r s)) = remove1 t (inflight s)
         \<and> runningTasks (snd (settle t r s)) = runningTasks s - 1
         \<and> taskQueue (snd (settle t r s)) = taskQueue s"
  using assms
  by (simp add: settle_def on_finally_def on_rejected_def Let_def runNext_paused
        split: outcome.splits option.splits)

text \<open>
  C8. \<^verbatim>\<open>pause()\<close> sets the flag and touches neither the pending nor the running tasks.
  While the queue is paused, no event other than \<^verbatim>\<open>resume()\<close> starts a task, whether tasks
  are added or running tasks complete; a running task still completes and is counted
  down. \<^verbatim>\<open>resume()\<close> on a paused queue clears the flag and starts the oldest pending tasks,
  at least one if there is capacity, until the limit is reached or none is pending.
\<close>

theorem pause_halts_starts_resume_restarts:
  "isPaused (pause s) \<and> inflight (pause s) = inflight s
   \<and> runningTasks (pause s) = runningTasks s \<and> taskQueue (pause s) = taskQueue s
   \<and> started (pause s) = started s
   \<and> (isPaused s \<and> Resume \<notin> set evs \<longrightarrow>
        isPaused (qrun evs s) \<and> started (qrun evs s) = started s)
   \<and> (isPaused s \<and> t \<in> set (inflight s) \<longrightarrow>
        fst (settle t r s) = None
        \<and> inflight (snd (settle t r s)) = remove1 t (inflight s)
        \<and> runningTasks (snd (settle t r s)) = runningTasks s - 1)
   \<and> (isPaused s \<longrightarrow>
        \<not> isPaused (snd (resume s))
        \<and> (\<exists>k. started (snd (resume s)) = started s @ take k (taskQueue s)
               \<and> taskQueue (snd (resume s)) = drop k (taskQueue s)
               \<and> (runningTasks s < concurrency s \<and> taskQueue s \<noteq> [] \<longrightarrow> 0 < k))
        \<and> (fst (resume s) = None \<longrightarrow>
             concurrency s \<le> runningTasks (snd (resume s)) \<or> taskQueue (snd (resume s)) = []))"
proof -
  have p: "isPaused (pause s) \<and> inflight (pause s) = inflight s
     \<and> runningTasks (pause s) = runningTasks s \<and> taskQueue (pause s) = taskQueue s
     \<and> started (pause s) = started s"
    by (simp add: pause_def)
  have r: "\<not> isPaused (snd (resume s))
        \<and> (\<exists>k. started (snd (resume s)) = started s @ take k (taskQueue s)
               \<and> taskQueue (snd (resume s)) = drop k (taskQueue s)
               \<and> (runningTasks s < concurrency s \<and> taskQueue s \<noteq> [] \<longrightarrow> 0 < k))
        \<and> (fst (resume s) = None \<longrightarrow>
             concurrency s \<le> runningTasks (snd (resume s)) \<or> taskQueue (snd (resume s)) = [])"
    if "isPaused s"
  proof -
    let ?s = "s\<lparr> isPaused := False, console := console s @ [QueueResumed] \<rparr>"
    have eq: "resume s = runNext ?s" using that by (simp add: resume_def)
    have 1: "\<not> isPaused (snd (runNext ?s))" by (simp add: runNext_frame)
    have 2: "\<exists>k. started (snd (runNext ?s)) = started s @ take k (taskQueue s)
               \<and> taskQueue (snd (runNext ?s)) = drop k (taskQueue s)
               \<and> (runningTasks s < concurrency s \<and> taskQueue s \<noteq> [] \<longrightarrow> 0 < k)"
      using runNext_prefix [of ?s] by simp
    have 3: "fst (runNext ?s) = None \<longrightarrow>
             concurrency s \<le> runningTasks (snd (runNext ?s)) \<or> taskQueue (snd (runNext ?s)) = []"
      using runNext_saturates [of ?s] 1 by (auto simp: runNext_frame)
    show ?thesis unfolding eq using 1 2 3 by blast
  qed
  show ?thesis using p r paused_run [of s evs] paused_settle [of s t r]
    by (metis fst_conv)
qed

theorem pause_halts_starts_resume_restarts_witness:
  "isPaused (qrun [Add (Fn (Task 1 None)), Pause, Add (Fn (Task 2 None)), Add (Fn (Task 3 None))]
       (queue0 2))
   \<and> Resume \<notin> set [Add (Fn (Task 4 None)), Settle (Task 1 None) Fulfilled]
   \<and> started (qrun [Add (Fn (Task 4 None)), Settle (Task 1 None) Fulfilled]
       (qrun [Add (Fn (Task 1 None)), Pause, Add (Fn (Task 2 None)), Add (Fn (Task 3 None))]
          (queue0 2))) = [Task 1 None]
   \<and> Task 1 None \<in> set (inflight
       (qrun [Add (Fn (Task 1 None)), Pause, Add (Fn (Task 2 None)), Add (Fn (Task 3 None))]
          (queue0 2)))
   \<and> runningTasks (snd (settle (Task 1 None) Fulfilled
       (qrun [Add (Fn (Task 1 None)), Pause, Add (Fn (Task 2 None)), Add (Fn (Task 3 None))]
          (queue0 2)))) = 0
   \<and> runningTasks
       (qrun [Add (Fn (Task 1 None)), Pause, Add (Fn (Task 2 None)), Add (Fn (Task 3 None))]
          (queue0 2)) < 2
   \<and> fst (resume
       (qrun [Add (Fn (Task 1 None)), Pause, Add (Fn (Task 2 None)), Add (Fn (Task 3 None))]
          (queue0 2))) = None
   \<and> started (snd (resume
       (qrun [Add (Fn (Task 1 None)), Pause, Add (Fn (Task 2 None)), Add (Fn (Task 3 None))]
          (queue0 2)))) = [Task 1 None, Task 2 None]
   \<and> taskQueue (snd (resume
       (qrun [Add (Fn (Task 1 None)), Pause, Add (Fn (Task 2 None)), Add (Fn (Task 3 None))]
          (queue0 2)))) = [Task 3 None]"
  using pause_halts_starts_resume_restarts
    [of "qrun [Add (Fn (Task 1 None)), Pause, Add (Fn (Task 2 None)), Add (Fn (Task 3 None))]
          (queue0 2)"
        "[Add (Fn (Task 4 None)), Settle (Task 1 None) Fulfilled]" "Task 1 None" Fulfilled]
  by (simp add: queue0_def add_def settle_def on_finally_def pause_def resume_def
        runNext.simps Let_def)

subsection \<open>Waiting for the queue to be idle\<close>

lemma orphaned_step:
  assumes "orphaned p s"
  shows "orphaned p (qstep e s)"
proof (cases e)
  case (Add a)
  show ?thesis
  proof (cases a)
    case NotAFunction
    then show ?thesis using Add assms by (simp add: add_def)
  next
    case (Fn t)
    obtain r s1 where rn: "runNext (s\<lparr> taskQueue := taskQueue s @ [t] \<rparr>) = (r, s1)"
      by (cases "runNext (s\<lparr> taskQueue := taskQueue s @ [t] \<rparr>)")
    from runNext_frame [of "s\<lparr> taskQueue := taskQueue s @ [t] \<rparr>"] rn
    have "resolved s1 = resolved s" "fresh s1 = fresh s" "resolveIdle s1 = resolveIdle s"
      by simp_all
    then show ?thesis using Add Fn rn assms
      by (cases r) (auto simp: add_def orphaned_def)
  qed
next
  case (Settle t r)
  then show ?thesis using assms
    by (auto simp: settle_def on_finally_def on_rejected_def orphaned_def Let_def runNext_frame
          split: outcome.splits option.splits)
next
  case Resume
  then show ?thesis using assms
    by (auto simp: resume_def orphaned_def runNext_frame)
qed (use assms in \<open>auto simp: orphaned_def pause_def clear_def onIdle_def\<close>)

lemma orphaned_run: "orphaned p s \<Longrightarrow> orphaned p (qrun es s)"
  by (induction es arbitrary: s) (auto simp: orphaned_step)

lemma runNext_empty: "taskQueue s = [] \<Longrightarrow> runNext s = (None, s)"
  by (subst runNext.simps) simp

text \<open>
  The half of C3 that the code keeps: a step that resolves a promise leaves the queue with
  nothing running and nothing pending.
\<close>

lemma resolution_only_when_idle:
  assumes "resolved (qstep e s) \<noteq> resolved s"
  shows "runningTasks (qstep e s) = 0 \<and> taskQueue (qstep e s) = []"
proof (cases e)
  case (Add a)
  show ?thesis
  proof (cases a)
    case NotAFunction
    then show ?thesis using Add assms by (simp add: add_def)
  next
    case (Fn t)
    obtain r s1 where rn: "runNext (s\<lparr> taskQueue := taskQueue s @ [t] \<rparr>) = (r, s1)"
      by (cases "runNext (s\<lparr> taskQueue := taskQueue s @ [t] \<rparr>)")
    from runNext_frame [of "s\<lparr> taskQueue := taskQueue s @ [t] \<rparr>"] rn
    have "resolved s1 = resolved s" by simp
    then show ?thesis using Add Fn rn assms by (cases r) (auto simp: add_def)
  qed
next
  case (Settle t r)
  show ?thesis
  proof (cases "t \<in> set (inflight s) \<and> runningTasks s = 1 \<and> taskQueue s = []")
    case True
    then show ?thesis using Settle
      by (auto simp: settle_def on_finally_def on_rejected_def Let_def runNext_empty
            split: outcome.splits option.splits)
  next
    case False
    then have "resolved (qstep e s) = resolved s" using Settle
      by (auto simp: settle_def on_finally_def on_rejected_def Let_def runNext_frame
            split: outcome.splits option.splits)
    with assms show ?thesis by simp
  qed
next
  case Resume
  then have "resolved (qstep e s) = resolved s" by (simp add: resume_def runNext_frame)
  with assms show ?thesis by simp
next
  case OnIdle
  then show ?thesis using assms by (auto simp: onIdle_def split: if_splits)
qed (use assms in \<open>simp_all add: pause_def clear_def\<close>)

text \<open>
  C3. The promise \<^verbatim>\<open>onIdle()\<close> returns should resolve when nothing is running or pending.
  On the code it need not: \<^verbatim>\<open>add\<close> replaces \<^verbatim>\<open>idlePromise\<close> and its resolver, so a promise
  handed out earlier is left without one. With concurrency 1: add a task, call
  \<^verbatim>\<open>onIdle()\<close> (promise 2), add a second task, let both complete. The queue is idle,
  promise 3 is resolved, and promise 2 is not, nor will it ever be.
\<close>

theorem onIdle_promise_orphaned_by_add:
  "createAsyncQueue 1 = Inr (queue0 1)
   \<and> fst (onIdle (qrun [Add (Fn (Task 1 None))] (queue0 1))) = 2
   \<and> runningTasks (qrun [Add (Fn (Task 1 None)), OnIdle, Add (Fn (Task 2 None)),
        Settle (Task 1 None) Fulfilled, Settle (Task 2 None) Fulfilled] (queue0 1)) = 0
   \<and> taskQueue (qrun [Add (Fn (Task 1 None)), OnIdle, Add (Fn (Task 2 None)),
        Settle (Task 1 None) Fulfilled, Settle (Task 2 None) Fulfilled] (queue0 1)) = []
   \<and> inflight (qrun [Add (Fn (Task 1 None)), OnIdle, Add (Fn (Task 2 None)),
        Settle (Task 1 None) Fulfilled, Settle (Task 2 None) Fulfilled] (queue0 1)) = []
   \<and> resolved (qrun [Add (Fn (Task 1 None)), OnIdle, Add (Fn (Task 2 None)),
        Settle (Task 1 None) Fulfilled, Settle (Task 2 None) Fulfilled] (queue0 1)) = {0, 3}
   \<and> (\<forall>evs. 2 \<notin> resolved (qrun evs (qrun [Add (Fn (Task 1 None)), OnIdle,
        Add (Fn (Task 2 None)), Settle (Task 1 None) Fulfilled,
        Settle (Task 2 None) Fulfilled] (queue0 1))))"
proof -
  let ?s = "qrun [Add (Fn (Task 1 None)), OnIdle, Add (Fn (Task 2 None)),
        Settle (Task 1 None) Fulfilled, Settle (Task 2 None) Fulfilled] (queue0 1)"
  have e: "fst (onIdle (qrun [Add (Fn (Task 1 None))] (queue0 1))) = 2"
    "runningTasks ?s = 0" "taskQueue ?s = []" "inflight ?s = []" "resolved ?s = {0, 3}"
    "fresh ?s = 4" "resolveIdle ?s = 3"
    by (auto simp: queue0_def add_def settle_def on_finally_def onIdle_def runNext.simps Let_def)
  then have "orphaned 2 ?s" by (simp add: orphaned_def)
  then have "\<forall>evs. 2 \<notin> resolved (qrun evs ?s)"
    using orphaned_run [of 2 ?s] by (simp add: orphaned_def)
  with e show ?thesis by (simp add: createAsyncQueue_def)
qed

subsection \<open>Failing tasks\<close>

lemma runNext_full: "concurrency s \<le> runningTasks s \<Longrightarrow> runNext s = (None, s)"
  by (subst runNext.simps) simp

lemma dead_step: "dead s \<Longrightarrow> dead (qstep e s) \<and> started (qstep e s) = started s"
  by (cases e)
     (auto simp: dead_def add_def settle_def resume_def pause_def clear_def onIdle_def
        runNext_full split: arg.splits)

lemma dead_run: "dead s \<Longrightarrow> started (qrun es s) = started s"
proof (induction es arbitrary: s)
  case (Cons e es)
  from dead_step [OF Cons.prems, of e] Cons.IH [of "qstep e s"] show ?case by simp
qed simp

lemma rejection_reaches_onError:
  assumes "t \<in> set (inflight s)"
  shows "handled (snd (settle t (Rejected e) s)) =
           (case onError s of Some h \<Rightarrow> handled s @ [(h, e)] | None \<Rightarrow> handled s)
         \<and> console (snd (settle t (Rejected e) s)) =
           (case onError s of Some h \<Rightarrow> console s
            | None \<Rightarrow> console s @ [UnhandledTaskError e])
         \<and> settle t (Rejected e) s =
             runNext ((on_rejected e (s\<lparr> inflight := remove1 t (inflight s) \<rparr>))
               \<lparr> runningTasks := runningTasks s - 1,
                  resolved := (if runningTasks s = 1 \<and> taskQueue s = []
                               then insert (resolveIdle s) (resolved s) else resolved s) \<rparr>)"
  using assms
  by (auto simp: settle_def on_finally_def on_rejected_def Let_def runNext_frame
        split: option.splits)

text \<open>
  C10. A task that fails should reach \<^verbatim>\<open>onError\<close> and leave the queue working. A task
  whose promise rejects does (lemma \<open>rejection_reaches_onError\<close>). A task that throws
  when called does not: with concurrency 1 and a handler set, \<^verbatim>\<open>add\<close> of such a task
  throws the error to its caller, the handler is not called, nothing is printed,
  \<^verbatim>\<open>runningTasks\<close> stays 1 with no task in flight, and no task starts ever after.
\<close>

theorem thrown_task_bypasses_onError:
  "createAsyncQueue 1 = Inr (queue0 1)
   \<and> fst (add (Fn (Task 1 (Some ''boom''))) (qrun [SetOnError (Some 7)] (queue0 1)))
       = Some (TaskThrew ''boom'')
   \<and> handled (qrun [SetOnError (Some 7), Add (Fn (Task 1 (Some ''boom'')))] (queue0 1)) = []
   \<and> console (qrun [SetOnError (Some 7), Add (Fn (Task 1 (Some ''boom'')))] (queue0 1)) = []
   \<and> getRunningTasksCount
        (qrun [SetOnError (Some 7), Add (Fn (Task 1 (Some ''boom'')))] (queue0 1)) = 1
   \<and> inflight (qrun [SetOnError (Some 7), Add (Fn (Task 1 (Some ''boom'')))] (queue0 1)) = []
   \<and> (\<forall>evs. started (qrun evs
          (qrun [SetOnError (Some 7), Add (Fn (Task 1 (Some ''boom'')))] (queue0 1)))
        = [Task 1 (Some ''boom'')])"
proof -
  let ?s = "qrun [SetOnError (Some 7), Add (Fn (Task 1 (Some ''boom'')))] (queue0 1)"
  have e: "fst (add (Fn (Task 1 (Some ''boom''))) (qrun [SetOnError (Some 7)] (queue0 1)))
       = Some (TaskThrew ''boom'')"
    "handled ?s = []" "console ?s = []" "runningTasks ?s = 1" "inflight ?s = []"
    "started ?s = [Task 1 (Some ''boom'')]" "concurrency ?s = 1"
    by (auto simp: queue0_def add_def runNext.simps Let_def)
  then have "dead ?s" by (simp add: dead_def)
  from dead_run [OF this] e show ?thesis
    by (simp add: createAsyncQueue_def getRunningTasksCount_def)
qed

subsection \<open>Clearing\<close>

text \<open>
  C9. \<^verbatim>\<open>clear()\<close> empties the list of pending tasks and leaves the tasks in flight, the
  counter \<^verbatim>\<open>runningTasks\<close>, the paused flag and the concurrency limit as they were.
\<close>

theorem clear_only_drops_pending:
  "getPendingTasksCount (clear s) = 0 \<and> taskQueue (clear s) = []
   \<and> inflight (clear s) = inflight s
   \<and> runningTasks (clear s) = runningTasks s
   \<and> getRunningTasksCount (clear s) = getRunningTasksCount s
   \<and> isPaused (clear s) = isPaused s
   \<and> concurrency (clear s) = concurrency s
   \<and> started (clear s) = started s"
  by (simp add: clear_def getPendingTasksCount_def getRunningTasksCount_def)

section \<open>Properties of the throttle wrapper\<close>

subsection \<open>The rate of calls\<close>

lemma spaced_snoc:
  "spaced w (xs @ [y]) =
     (spaced w xs \<and>
      (xs = [] \<or>
       (inv_time (last xs) \<le> inv_time y
        \<and> (inv_time (last xs) + w \<le> inv_time y
            \<or> (inv_edge (last xs) = Trailing \<and> inv_edge y = Leading)))))"
  by (induction w xs rule: spaced.induct) auto

lemma spaced_twice: "spaced w xs \<Longrightarrow> twice_per_window w xs"
  by (induction w xs rule: twice_per_window.induct) auto

lemma throttled_tinv:
  assumes "tinv s"
  shows "tinv (snd (throttled c a Returns s))"
  using assms
  by (auto simp: tinv_def throttled_def timer_delay_def Let_def spaced_snoc)

lemma tick_tinv:
  assumes "tinv s"
  shows "tinv (s\<lparr> clock := clock s + d \<rparr>)"
  using assms by (auto simp: tinv_def split: option.splits)

lemma fire_tinv:
  assumes "tinv s"
  shows "tinv (snd (fire r s))"
proof (cases "timeoutId s")
  case None
  then show ?thesis using assms by (simp add: fire_def)
next
  case (Some p)
  obtain due c a where p: "p = (due, c, a)" by (cases p)
  show ?thesis
  proof (cases "due \<le> clock s")
    case False
    then show ?thesis using assms Some p by (simp add: fire_def)
  next
    case True
    then show ?thesis using assms Some p
      by (cases r) (auto simp: fire_def timeout_cb_def tinv_def Let_def spaced_snoc)
  qed
qed

lemma throttled_unused_result:
  "truthy (inThrottle s) \<or> \<not> leading s \<Longrightarrow> throttled c a r s = throttled c a Returns s"
  by (cases r) (auto simp: throttled_def Let_def)

lemma tstep_tinv:
  "tinv s \<Longrightarrow> e \<noteq> Cancel \<Longrightarrow> leading_returns [e] s \<Longrightarrow> tinv (tstep e s)"
proof (cases e)
  case (Call c a r)
  assume "tinv s" "leading_returns [e] s"
  then show ?thesis using Call throttled_unused_result [of s c a r]
    by (cases r) (auto simp: throttled_tinv)
qed (simp_all add: tick_tinv fire_tinv)

lemma trun_tinv:
  "tinv s \<Longrightarrow> Cancel \<notin> set es \<Longrightarrow> leading_returns es s \<Longrightarrow> tinv (trun es s)"
proof (induction es arbitrary: s)
  case Nil
  then show ?case by simp
next
  case (Cons e es)
  from Cons.prems(3) have r: "leading_returns [e] s" "leading_returns es (tstep e s)"
    by simp_all
  from Cons.prems(2) have c: "e \<noteq> Cancel" "Cancel \<notin> set es" by auto
  from tstep_tinv [OF Cons.prems(1) c(1) r(1)] Cons.IH [OF _ c(2) r(2)]
  show ?case by simp
qed

lemma tstep_wait: "wait (tstep e s) = wait s"
proof (cases e)
  case (Call c a r)
  then show ?thesis by (cases r) (simp_all add: throttled_def Let_def)
next
  case (Fire r)
  then show ?thesis
    by (cases r) (auto simp: fire_def timeout_cb_def Let_def split: option.splits)
qed (simp_all add: cancel_def)

lemma trun_wait: "wait (trun es s) = wait s"
  by (induction es arbitrary: s) (auto simp: tstep_wait)

text \<open>
  C2, as amended. Let \<^verbatim>\<open>wait\<close> be a whole number of milliseconds, at most 2147483647, the
  longest delay the timer honours, and let \<^verbatim>\<open>func\<close> return from every call the wrapper
  itself makes of it, without calling the wrapper. Then for all options, on every
  sequence of calls to the wrapper, with time passing and the timer running in between
  (and no \<^verbatim>\<open>cancel\<close>), each call of \<^verbatim>\<open>func\<close> comes at least \<^verbatim>\<open>wait\<close> after the one before it,
  unless it is a leading call that follows a trailing call; so of any three calls in a
  row the last comes at least \<^verbatim>\<open>wait\<close> after the first. A call of \<^verbatim>\<open>func\<close> by the timer may
  throw.
\<close>

theorem throttle_rate:
  assumes "throttle True w opts = Inr s0" "w \<le> 2147483647"
    and "Cancel \<notin> set evs" "leading_returns evs s0"
  shows "spaced (nat w) (calls (trun evs s0)) \<and> twice_per_window (nat w) (calls (trun evs s0))"
proof -
  from assms(1,2) have "tinv s0" and w: "wait s0 = nat w"
    by (auto simp: throttle_def wrapper0_def tinv_def split: if_splits)
  from trun_tinv [OF this(1) assms(3,4)] have "spaced (nat w) (calls (trun evs s0))"
    by (simp add: tinv_def trun_wait w)
  then show ?thesis by (simp add: spaced_twice)
qed

theorem throttle_rate_witness:
  "throttle True 1000 \<lparr> leading_opt = None, trailing_opt = None \<rparr>
     = Inr (wrapper0 1000 True True :: (nat, string) throttle_state)
   \<and> (1000 :: int) \<le> 2147483647
   \<and> Cancel \<notin> set
        [Call (0::nat) ''a'' Returns, Tick 1, Call 0 ''b'' (Throws ''unused''),
              Tick 1000, Fire (Throws ''late''), Tick 1, Call 0 ''c'' Returns, Tick 1000,
              Fire Returns, Tick 1, Call 0 ''d'' Returns]
   \<and> leading_returns
        [Call (0::nat) ''a'' Returns, Tick 1, Call 0 ''b'' (Throws ''unused''),
              Tick 1000, Fire (Throws ''late''), Tick 1, Call 0 ''c'' Returns, Tick 1000,
              Fire Returns, Tick 1, Call 0 ''d'' Returns]
        (wrapper0 1000 True True)
   \<and> map inv_time (calls (trun
        [Call (0::nat) ''a'' Returns, Tick 1, Call 0 ''b'' (Throws ''unused''),
              Tick 1000, Fire (Throws ''late''), Tick 1, Call 0 ''c'' Returns, Tick 1000,
              Fire Returns, Tick 1, Call 0 ''d'' Returns]
        (wrapper0 1000 True True))) = [0, 1001, 2002, 2003]
   \<and> map inv_edge (calls (trun
        [Call (0::nat) ''a'' Returns, Tick 1, Call 0 ''b'' (Throws ''unused''),
              Tick 1000, Fire (Throws ''late''), Tick 1, Call 0 ''c'' Returns, Tick 1000,
              Fire Returns, Tick 1, Call 0 ''d'' Returns]
        (wrapper0 1000 True True))) = [Leading, Trailing, Trailing, Leading]
   \<and> spaced 1000 (calls (trun
        [Call (0::nat) ''a'' Returns, Tick 1, Call 0 ''b'' (Throws ''unused''),
              Tick 1000, Fire (Throws ''late''), Tick 1, Call 0 ''c'' Returns, Tick 1000,
              Fire Returns, Tick 1, Call 0 ''d'' Returns]
        (wrapper0 1000 True True)))
   \<and> twice_per_window 1000 (calls (trun
        [Call (0::nat) ''a'' Returns, Tick 1, Call 0 ''b'' (Throws ''unused''),
              Tick 1000, Fire (Throws ''late''), Tick 1, Call 0 ''c'' Returns, Tick 1000,
              Fire Returns, Tick 1, Call 0 ''d'' Returns]
        (wrapper0 1000 True True)))"
  using throttle_rate [of 1000 "\<lparr> leading_opt = None, trailing_opt = None \<rparr>"
      "wrapper0 1000 True True"
      "[Call (0::nat) ''a'' Returns, Tick 1, Call 0 ''b'' (Throws ''unused''),
              Tick 1000, Fire (Throws ''late''), Tick 1, Call 0 ''c'' Returns, Tick 1000,
              Fire Returns, Tick 1, Call 0 ''d'' Returns]"]
  by (simp add: throttle_def wrapper0_def throttled_def fire_def timeout_cb_def timer_delay_def
        Let_def)

text \<open>
  C2 as stated, at most one call of \<^verbatim>\<open>func\<close> in any window of \<^verbatim>\<open>wait\<close> milliseconds, fails:
  with \<^verbatim>\<open>wait\<close> 1000 and both options left out, calls at times 0, 1 and 1002 make \<^verbatim>\<open>func\<close>
  run at 0, at 1001 (trailing) and at 1002 (leading), all three calls returning.
\<close>

theorem throttle_rate_counterexample:
  "\<not> once_per_window 1000
       (invocations (throttle True 1000 \<lparr> leading_opt = None, trailing_opt = None \<rparr>)
          [Call (0::nat) ''a'' Returns, Tick 1, Call 0 ''b'' Returns, Tick 1000, Fire Returns,
           Tick 1, Call 0 ''c'' Returns])"
  by (simp add: invocations_def throttle_def wrapper0_def throttled_def fire_def timeout_cb_def
        timer_delay_def Let_def)

text \<open>
  Why the amended claim asks that \<^verbatim>\<open>func\<close> return: a leading call of \<^verbatim>\<open>func\<close> that throws
  leaves the wrapper before \<^verbatim>\<open>inThrottle\<close> is set, so the next call of the wrapper, 1
  millisecond later with \<^verbatim>\<open>wait\<close> 10, calls \<^verbatim>\<open>func\<close> again.
\<close>

lemma throwing_func_is_called_again:
  "map inv_time
     (invocations (throttle True 10 \<lparr> leading_opt = None, trailing_opt = None \<rparr>)
        [Call (0::nat) ''a'' (Throws ''no''), Tick 1, Call 0 ''b'' Returns]) = [0, 1]
   \<and> \<not> spaced 10
       (invocations (throttle True 10 \<lparr> leading_opt = None, trailing_opt = None \<rparr>)
          [Call (0::nat) ''a'' (Throws ''no''), Tick 1, Call 0 ''b'' Returns])"
  by (simp add: invocations_def throttle_def wrapper0_def throttled_def timer_delay_def Let_def)

text \<open>
  Why it asks that the timer honour the delay: with \<^verbatim>\<open>wait\<close> 2147483648 the timer runs after
  1 millisecond and ends the throttle period, so a call of the wrapper at that time calls
  \<^verbatim>\<open>func\<close> again.
\<close>

lemma long_wait_is_cut_short:
  "map inv_time
     (invocations (throttle True 2147483648 \<lparr> leading_opt = None, trailing_opt = None \<rparr>)
        [Call (0::nat) ''a'' Returns, Tick 1, Fire Returns, Call 0 ''b'' Returns]) = [0, 1]
   \<and> \<not> spaced 2147483648
       (invocations (throttle True 2147483648 \<lparr> leading_opt = None, trailing_opt = None \<rparr>)
          [Call (0::nat) ''a'' Returns, Tick 1, Fire Returns, Call 0 ''b'' Returns])"
  by (simp add: invocations_def throttle_def wrapper0_def throttled_def fire_def timeout_cb_def
        timer_delay_def Let_def)

subsection \<open>The leading edge\<close>

lemma tstep_settings:
  "leading (tstep e s) = leading s \<and> trailing (tstep e s) = trailing s"
proof (cases e)
  case (Call c a r)
  then show ?thesis by (cases r) (simp_all add: throttled_def Let_def)
next
  case (Fire r)
  then show ?thesis
    by (cases r) (auto simp: fire_def timeout_cb_def Let_def split: option.splits)
qed (simp_all add: cancel_def)

lemma trun_settings:
  "leading (trun es s) = leading s \<and> trailing (trun es s) = trailing s"
  by (induction es arbitrary: s) (auto simp: tstep_settings)

lemma throttle_settings:
  assumes "throttle True w opts = Inr s0"
  shows "leading (trun es s0) = (leading_opt opts \<noteq> Some False)
         \<and> trailing (trun es s0) = (trailing_opt opts \<noteq> Some False)
         \<and> wait (trun es s0) = nat w"
  using assms
  by (auto simp: throttle_def wrapper0_def trun_settings trun_wait split: if_splits option.splits)

lemma call_outside_throttle:
  assumes "leading s" "\<not> truthy (inThrottle s)"
  shows "calls (snd (throttled c a r s)) =
           calls s @ [\<lparr> inv_time = clock s, inv_this = c, inv_args = a, inv_edge = Leading \<rparr>]
         \<and> truthy (inThrottle (snd (throttled c a r s))) = (r = Returns)"
  using assms by (cases r) (simp_all add: throttled_def Let_def)

text \<open>
  C5. For the wrapper that \<^verbatim>\<open>throttle\<close> returns when \<^verbatim>\<open>leading\<close> is true or left out, after
  any events: a call that arrives while the wrapper is not in a throttled state calls
  \<^verbatim>\<open>func\<close> at once, with the context and arguments of that call, whether \<^verbatim>\<open>func\<close> returns or
  throws, and puts the wrapper in the throttled state exactly when \<^verbatim>\<open>func\<close> returns.
\<close>

theorem leading_call_fires_at_once:
  assumes "throttle True w opts = Inr s0" "leading_opt opts \<noteq> Some False"
    and "s = trun pre s0" "\<not> truthy (inThrottle s)"
  shows "calls (snd (throttled c a r s)) =
           calls s @ [\<lparr> inv_time = clock s, inv_this = c, inv_args = a, inv_edge = Leading \<rparr>]
         \<and> truthy (inThrottle (snd (throttled c a r s))) = (r = Returns)"
proof -
  have "leading s" using throttle_settings [OF assms(1), of pre] assms(2,3) by simp
  then show ?thesis using assms(4) by (rule call_outside_throttle)
qed

theorem leading_call_fires_at_once_witness:
  "throttle True 1000 \<lparr> leading_opt = Some True, trailing_opt = Some False \<rparr>
     = Inr (wrapper0 1000 True False :: (nat, string) throttle_state)
   \<and> leading_opt \<lparr> leading_opt = Some True, trailing_opt = Some False \<rparr> \<noteq> Some False
   \<and> \<not> truthy (inThrottle
         (trun [Call (1::nat) ''a'' Returns, Tick 1000, Fire Returns] (wrapper0 1000 True False)))
   \<and> calls (snd (throttled 2 ''b'' Returns
         (trun [Call (1::nat) ''a'' Returns, Tick 1000, Fire Returns] (wrapper0 1000 True False))))
       = [\<lparr> inv_time = 0, inv_this = 1, inv_args = ''a'', inv_edge = Leading \<rparr>,
          \<lparr> inv_time = 1000, inv_this = 2, inv_args = ''b'', inv_edge = Leading \<rparr>]
   \<and> truthy (inThrottle (snd (throttled 2 ''b'' Returns
         (trun [Call (1::nat) ''a'' Returns, Tick 1000, Fire Returns]
            (wrapper0 1000 True False)))))"
  using leading_call_fires_at_once
    [of 1000 "\<lparr> leading_opt = Some True, trailing_opt = Some False \<rparr>"
        "wrapper0 1000 True False"
        "trun [Call (1::nat) ''a'' Returns, Tick 1000, Fire Returns] (wrapper0 1000 True False)"
        "[Call (1::nat) ''a'' Returns, Tick 1000, Fire Returns]" 2 "''b''" Returns]
  by (simp add: throttle_def wrapper0_def throttled_def fire_def timeout_cb_def timer_delay_def
        Let_def)

subsection \<open>The trailing edge\<close>

lemma trun_append: "trun (xs @ ys) s = trun ys (trun xs s)"
  by (induction xs arbitrary: s) auto

lemma window_keeps:
  "truthy (inThrottle s) \<Longrightarrow> in_window es \<Longrightarrow>
     calls (trun es s) = calls s \<and> truthy (inThrottle (trun es s))"
proof (induction es arbitrary: s rule: in_window.induct)
  case (2 c a r es)
  have "truthy (inThrottle (snd (throttled c a r s)))"
       "calls (snd (throttled c a r s)) = calls s"
    using "2.prems"(1) by (simp_all add: throttled_def Let_def)
  with "2.IH" [of "snd (throttled c a r s)"] "2.prems"(2) show ?case by simp
next
  case (3 d es)
  from "3.IH" [of "s\<lparr> clock := clock s + d \<rparr>"] "3.prems" show ?case by simp
qed simp_all

lemma passing_keeps:
  "passing es \<Longrightarrow>
     timeoutId (trun es s) = timeoutId s \<and> calls (trun es s) = calls s
     \<and> inThrottle (trun es s) = inThrottle s \<and> lastFn (trun es s) = lastFn s
     \<and> clock s \<le> clock (trun es s)"
proof (induction es arbitrary: s rule: passing.induct)
  case (2 d es)
  from "2.IH" [of "s\<lparr> clock := clock s + d \<rparr>"] "2.prems" show ?case by simp
qed simp_all

lemma quiet_idle:
  "timeoutId s = None \<Longrightarrow> quiet es \<Longrightarrow> calls (trun es s) = calls s"
proof (induction es arbitrary: s rule: quiet.induct)
  case (2 d es)
  from "2.IH" [of "s\<lparr> clock := clock s + d \<rparr>"] "2.prems" show ?case by simp
next
  case (3 r es)
  from "3.IH" [of "snd (fire r s)"] "3.prems" show ?case by (simp add: fire_def)
qed simp_all

text \<open>
  What the code does with calls that arrive while the wrapper is in a throttled state,
  with \<^verbatim>\<open>trailing\<close> true. None of them calls \<^verbatim>\<open>func\<close>. Each replaces the timer by one for
  itself, due the honoured delay after that call, wherever in time the call falls. The
  timer does nothing when run before it is due; run when due, it calls \<^verbatim>\<open>func\<close> once, with
  the context and arguments of the last call, and nothing more happens without a new call.
  The throttled state ends there if \<^verbatim>\<open>func\<close> returns and stays if it throws.
\<close>

lemma window_ends_with_last_call:
  assumes "trailing s" "truthy (inThrottle s)" "in_window pre" "passing idle"
  shows "calls (trun (pre @ Call c a r # idle) s) = calls s
         \<and> timeoutId (trun (pre @ Call c a r # idle) s)
             = Some (clock (trun pre s) + timer_delay (wait s), c, a)
         \<and> (clock (trun (pre @ Call c a r # idle) s) < clock (trun pre s) + timer_delay (wait s)
              \<longrightarrow> calls (trun (pre @ Call c a r # idle @ [Fire r']) s) = calls s)
         \<and> (clock (trun pre s) + timer_delay (wait s) \<le> clock (trun (pre @ Call c a r # idle) s)
              \<and> quiet rest
              \<longrightarrow> calls (trun (pre @ Call c a r # idle @ Fire r' # rest) s) =
                    calls s @ [\<lparr> inv_time = clock (trun (pre @ Call c a r # idle) s),
                                 inv_this = c, inv_args = a, inv_edge = Trailing \<rparr>]
                  \<and> truthy (inThrottle (trun (pre @ Call c a r # idle @ [Fire r']) s))
                      = (r' \<noteq> Returns))"
proof -
  let ?s1 = "trun pre s"
  let ?s2 = "snd (throttled c a r ?s1)"
  let ?s3 = "trun idle ?s2"
  let ?due = "clock ?s1 + timer_delay (wait s)"
  from window_keeps [OF assms(2,3)] have k: "calls ?s1 = calls s" "truthy (inThrottle ?s1)"
    by simp_all
  have s2: "calls ?s2 = calls s" "timeoutId ?s2 = Some (?due, c, a)"
      "truthy (inThrottle ?s2)" "present (lastFn ?s2)"
    using k by (simp_all add: throttled_def Let_def trun_wait)
  from passing_keeps [OF assms(4), of ?s2] s2
  have s3: "calls ?s3 = calls s" "timeoutId ?s3 = Some (?due, c, a)"
      "truthy (inThrottle ?s3)" "present (lastFn ?s3)"
    by simp_all
  have tr: "trailing ?s3" using assms(1) trun_settings [of idle ?s2] tstep_settings [of "Call c a r" ?s1]
      trun_settings [of pre s] by simp
  have run: "trun (pre @ Call c a r # idle) s = ?s3" by (simp add: trun_append)
  have early: "calls (trun (pre @ Call c a r # idle @ [Fire r']) s) = calls s"
    if "clock ?s3 < ?due"
    using that s3 by (simp add: trun_append fire_def)
  have late: "calls (trun (pre @ Call c a r # idle @ Fire r' # rest) s) =
                calls s @ [\<lparr> inv_time = clock ?s3, inv_this = c, inv_args = a,
                             inv_edge = Trailing \<rparr>]
              \<and> truthy (inThrottle (trun (pre @ Call c a r # idle @ [Fire r']) s))
                  = (r' \<noteq> Returns)"
    if "?due \<le> clock ?s3" "quiet rest"
  proof -
    let ?f = "snd (fire r' ?s3)"
    have f: "timeoutId ?f = None"
      "calls ?f = calls s @ [\<lparr> inv_time = clock ?s3, inv_this = c, inv_args = a,
                               inv_edge = Trailing \<rparr>]"
      "truthy (inThrottle ?f) = (r' \<noteq> Returns)"
      using that(1) s3 tr by (cases r'; simp add: fire_def timeout_cb_def Let_def)+
    have "trun (pre @ Call c a r # idle @ Fire r' # rest) s = trun rest ?f"
      "trun (pre @ Call c a r # idle @ [Fire r']) s = ?f"
      by (simp_all add: trun_append)
    with quiet_idle [OF f(1) that(2)] f(2,3) show ?thesis by simp
  qed
  show ?thesis unfolding run using s3(1,2) early late unfolding run by blast
qed

text \<open>
  C6. After a window of \<^verbatim>\<open>wait\<close> milliseconds in which further calls arrived, \<^verbatim>\<open>func\<close> should
  run once more with the last call of that window. On the code it need not. The demo of
  the source, \<^verbatim>\<open>throttle(logMessage, 1000, { leading: true, trailing: true })\<close>, is called at 0,
  200, 400 and 1100. The third call sets the timer for 1400. At 1100, after the window
  from 0 to 1000 has passed, the wrapper is still in the throttled state, so the fourth
  call is not a leading call and replaces the timer by one for 2100. \<^verbatim>\<open>func\<close> runs for the
  first call at 0 and for the fourth at 2100, and never for the third, the last call of
  the first window.
\<close>

theorem trailing_call_of_window_is_dropped:
  "throttle True 1000 \<lparr> leading_opt = Some True, trailing_opt = Some True \<rparr>
     = Inr (wrapper0 1000 True True :: (nat, string) throttle_state)
   \<and> timeoutId
       (trun [Call (0::nat) ''First call'' Returns, Tick 200, Call 0 ''Second call'' Returns,
              Tick 200, Call 0 ''Third call'' Returns] (wrapper0 1000 True True))
       = Some (1400, 0, ''Third call'')
   \<and> clock
       (trun [Call (0::nat) ''First call'' Returns, Tick 200, Call 0 ''Second call'' Returns,
              Tick 200, Call 0 ''Third call'' Returns, Tick 600, Fire Returns, Tick 100]
          (wrapper0 1000 True True)) = 1100
   \<and> truthy (inThrottle
       (trun [Call (0::nat) ''First call'' Returns, Tick 200, Call 0 ''Second call'' Returns,
              Tick 200, Call 0 ''Third call'' Returns, Tick 600, Fire Returns, Tick 100]
          (wrapper0 1000 True True)))
   \<and> timeoutId
       (trun [Call (0::nat) ''First call'' Returns, Tick 200, Call 0 ''Second call'' Returns,
              Tick 200, Call 0 ''Third call'' Returns, Tick 600, Fire Returns, Tick 100,
              Call 0 ''Fourth call'' Returns] (wrapper0 1000 True True))
       = Some (2100, 0, ''Fourth call'')
   \<and> calls
       (trun [Call (0::nat) ''First call'' Returns, Tick 200, Call 0 ''Second call'' Returns,
              Tick 200, Call 0 ''Third call'' Returns, Tick 600, Fire Returns, Tick 100,
              Call 0 ''Fourth call'' Returns, Tick 300, Fire Returns, Tick 700, Fire Returns,
              Tick 100000, Fire Returns] (wrapper0 1000 True True))
       = [\<lparr> inv_time = 0, inv_this = 0, inv_args = ''First call'', inv_edge = Leading \<rparr>,
          \<lparr> inv_time = 2100, inv_this = 0, inv_args = ''Fourth call'', inv_edge = Trailing \<rparr>]
   \<and> timeoutId
       (trun [Call (0::nat) ''First call'' Returns, Tick 200, Call 0 ''Second call'' Returns,
              Tick 200, Call 0 ''Third call'' Returns, Tick 600, Fire Returns, Tick 100,
              Call 0 ''Fourth call'' Returns, Tick 300, Fire Returns, Tick 700, Fire Returns,
              Tick 100000, Fire Returns] (wrapper0 1000 True True)) = None"
  by (simp add: throttle_def wrapper0_def throttled_def fire_def timeout_cb_def timer_delay_def
        Let_def)

subsection \<open>Cancelling\<close>





end
